theory Spec2Isabelle
  imports Main
begin

section \<open>The shell component of \<open>src/index.tsx\<close>\<close>

text \<open>
  The repository is one React component, \<open>App\<close>. Its four \<open>useState\<close> cells, the
  \<open>iframeRef\<close> and what the browser holds for it (requests in flight, armed timeouts, the
  clock, the messages handed to \<open>postMessage\<close>, the console) form the state. Each browser
  event is handled to completion: the handler runs, React renders again when a state cell
  changed, and the effects whose dependencies changed run before the next event.
\<close>

subsection \<open>Data\<close>

text \<open>\<open>useState<'dark' | 'light'>\<close>: the two string literals of the union type.\<close>

datatype theme = Dark | Light

text \<open>The two object literals passed to \<open>postMessage\<close> (lines 57, 66 and 68).\<close>

datatype message = SET_THEME theme | PAUSE_GAME bool





datatype WindowProxy = WindowProxy

text \<open>The \<open><iframe>\<close> element: \<open>contentWindow\<close> is \<open>Window | null\<close>.\<close>

record HTMLIFrameElement =
  srcDoc :: string
  contentWindow :: "WindowProxy option"

text \<open>
  A timeout armed at line 65. Its callback closes over \<open>showDisclaimer\<close> and
  \<open>themeMode\<close> of the render that armed it.
\<close>

record timer =
  due :: nat
  cap_showDisclaimer :: bool
  cap_themeMode :: theme

datatype error = TypeError

datatype fetch_error = FetchError

record shell =
  themeMode :: theme
  showDisclaimer :: bool
  activeModel :: string
  gameHtml :: "string option"
  iframeRef :: "HTMLIFrameElement option"
  pending :: "string list"
  fetched :: "string list"
  timers :: "timer list"
  now :: nat
  posted :: "(nat \<times> message) list"
  console :: "string list"

text \<open>
  \<open>pending\<close> holds the URLs of the \<open>fetch\<close> calls not yet settled, \<open>fetched\<close> every URL
  ever passed to \<open>fetch\<close>, \<open>now\<close> the clock in milliseconds, and \<open>posted\<close> every message
  that reached \<open>postMessage\<close> with the time of the call.
\<close>

subsection \<open>Sequencing of calls that may throw\<close>

definition and_then :: "error + 'a \<Rightarrow> ('a \<Rightarrow> error + 'b) \<Rightarrow> error + 'b" where
  "and_then r f = (case r of Inl e \<Rightarrow> Inl e | Inr x \<Rightarrow> f x)"

subsection \<open>Member access and \<open>postMessage\<close>\<close>

text \<open>Reading \<open>.contentWindow\<close> of \<open>null\<close> throws a \<open>TypeError\<close>.\<close>

definition get_contentWindow :: "HTMLIFrameElement option \<Rightarrow> error + WindowProxy option" where
  "get_contentWindow r = (case r of None \<Rightarrow> Inl TypeError | Some f \<Rightarrow> Inr (contentWindow f))"

text \<open>Calling \<open>.postMessage\<close> on \<open>null\<close> throws; on a window it hands the message over.\<close>

definition postMessage :: "WindowProxy option \<Rightarrow> message \<Rightarrow> shell \<Rightarrow> error + shell" where
  "postMessage w m s = (case w of
      None \<Rightarrow> Inl TypeError
    | Some _ \<Rightarrow> Inr (s\<lparr>posted := posted s @ [(now s, m)]\<rparr>))"

text \<open>\<open>iframeRef.current?.contentWindow?.postMessage(m, '*')\<close> (lines 66 and 68).\<close>

definition optional_post :: "message \<Rightarrow> shell \<Rightarrow> error + shell" where
  "optional_post m s = (case iframeRef s of
      None \<Rightarrow> Inr s
    | Some f \<Rightarrow> (case contentWindow f of
        None \<Rightarrow> Inr s
      | Some w \<Rightarrow> postMessage (Some w) m s))"

subsection \<open>Rendering and effects\<close>

text \<open>JavaScript truthiness of \<open>gameHtml : string | null\<close> in \<open>{gameHtml && (<iframe .../>)}\<close>.\<close>

definition truthy :: "string option \<Rightarrow> bool" where
  "truthy h = (case h of None \<Rightarrow> False | Some html \<Rightarrow> html \<noteq> [])"

text \<open>
  What the commit leaves in \<open>iframeRef.current\<close>: nothing when \<open>gameHtml\<close> is falsy, the
  same element with a new \<open>srcDoc\<close> when one was mounted, a new element in the document
  (which has a window) otherwise.
\<close>

definition commit_ref :: "string option \<Rightarrow> HTMLIFrameElement option \<Rightarrow> HTMLIFrameElement option" where
  "commit_ref h old = (case h of
      None \<Rightarrow> None
    | Some html \<Rightarrow>
        if html = [] then None
        else (case old of
            None \<Rightarrow> Some \<lparr>srcDoc = html, contentWindow = Some WindowProxy\<rparr>
          | Some f \<Rightarrow> Some (f\<lparr>srcDoc := html\<rparr>)))"

definition url_of :: "string \<Rightarrow> string" where
  "url_of model = (if model = ''gemini3'' then ''./init/gemini3.html'' else ''./init/gemini2p5.html'')"

text \<open>The effect of lines 38-50 up to its \<open>await\<close>: the request leaves.\<close>

definition load :: "shell \<Rightarrow> shell" where
  "load s = s\<lparr>pending := pending s @ [url_of (activeModel s)],
              fetched := fetched s @ [url_of (activeModel s)]\<rparr>"

text \<open>The rest of \<open>load\<close> once the request settles: \<open>setGameHtml\<close> is the only state change,
  the \<open>catch\<close> branch only writes to the console.\<close>

definition setGameHtml :: "string \<Rightarrow> shell \<Rightarrow> shell" where
  "setGameHtml html s = s\<lparr>gameHtml := Some html\<rparr>"

definition console_error :: "string \<Rightarrow> shell \<Rightarrow> shell" where
  "console_error line s = s\<lparr>console := console s @ [line]\<rparr>"

text \<open>
  What \<open>fetch\<close> resolves with when the server answers. Lines 42-43 read the body with
  \<open>res.text()\<close> whatever the status is: neither \<open>res.ok\<close> nor \<open>res.status\<close> is looked at,
  and \<open>fetch\<close> itself rejects only when no response arrives.
\<close>

record Response =
  ok :: bool
  status :: nat
  body :: string

definition answered :: "Response \<Rightarrow> fetch_error + string" where
  "answered res = Inr (body res)"

text \<open>The effect of lines 62-71: with a window at hand, arm a timeout of 100 ms.\<close>

definition broadcast_effect :: "shell \<Rightarrow> shell" where
  "broadcast_effect s = (case iframeRef s of
      None \<Rightarrow> s
    | Some f \<Rightarrow> (case contentWindow f of
        None \<Rightarrow> s
      | Some w \<Rightarrow> s\<lparr>timers := timers s @
          [\<lparr>due = now s + 100, cap_showDisclaimer = showDisclaimer s,
            cap_themeMode = themeMode s\<rparr>]\<rparr>))"

text \<open>
  A render after state updates, \<open>prev\<close> being the state before them. React skips the
  render when no cell changed; otherwise it commits the element and runs, in the order
  they are declared, the effects with a changed dependency.
\<close>

definition rerender :: "shell \<Rightarrow> shell \<Rightarrow> shell" where
  "rerender prev s =
    (if themeMode s = themeMode prev \<and> showDisclaimer s = showDisclaimer prev \<and>
        activeModel s = activeModel prev \<and> gameHtml s = gameHtml prev
     then s
     else
       let s1 = s\<lparr>iframeRef := commit_ref (gameHtml s) (iframeRef s)\<rparr>;
           s2 = (if activeModel s \<noteq> activeModel prev then load s1 else s1)
       in if showDisclaimer s \<noteq> showDisclaimer prev \<or> gameHtml s \<noteq> gameHtml prev \<or>
             themeMode s \<noteq> themeMode prev
          then broadcast_effect s2 else s2)"

definition initial :: shell where
  "initial = \<lparr>themeMode = Light, showDisclaimer = True, activeModel = ''gemini3'',
     gameHtml = None, iframeRef = None, pending = [], fetched = [], timers = [], now = 0,
     posted = [], console = []\<rparr>"

text \<open>The first render: both effects run once.\<close>

definition mount :: shell where
  "mount = broadcast_effect (load initial)"

subsection \<open>Handlers\<close>

text \<open>\<open>toggleTheme\<close>, lines 53-59, every member access written out.\<close>

definition toggleTheme :: "shell \<Rightarrow> error + shell" where
  "toggleTheme s =
    (let newMode = (if themeMode s = Dark then Light else Dark);
         s1 = s\<lparr>themeMode := newMode\<rparr>
     in if iframeRef s \<noteq> None
        then and_then (get_contentWindow (iframeRef s)) (\<lambda>w.
               if w \<noteq> None
               then and_then (get_contentWindow (iframeRef s)) (\<lambda>w'.
                      postMessage w' (SET_THEME newMode) s1)
               else Inr s1)
        else Inr s1)"

text \<open>The \<open>onClick\<close> of the Start button, line 169.\<close>

definition confirm :: "shell \<Rightarrow> shell" where
  "confirm s = rerender s (s\<lparr>showDisclaimer := False\<rparr>)"

text \<open>
  The setter of line 28. No handler of the component calls it; it is here for what the
  effect of lines 38-50 would do if one did.
\<close>

definition setActiveModel :: "string \<Rightarrow> shell \<Rightarrow> shell" where
  "setActiveModel v s = rerender s (s\<lparr>activeModel := v\<rparr>)"

text \<open>The callback of line 65, run when the clock reaches its due time.\<close>

definition fire :: "timer \<Rightarrow> shell \<Rightarrow> error + shell" where
  "fire tm s =
    and_then (optional_post (PAUSE_GAME (cap_showDisclaimer tm)) (s\<lparr>now := max (now s) (due tm)\<rparr>))
      (optional_post (SET_THEME (cap_themeMode tm)))"

fun fire_all :: "timer list \<Rightarrow> shell \<Rightarrow> error + shell" where
  "fire_all [] s = Inr s"
| "fire_all (tm # tms) s = and_then (fire tm s) (fire_all tms)"

text \<open>
  \<open>d\<close> milliseconds pass: the timeouts that fall due run, in the order they were armed
  (every timeout has the same delay, so that is the order of their due times).
\<close>

definition elapse :: "nat \<Rightarrow> shell \<Rightarrow> error + shell" where
  "elapse d s =
    (let t = now s + d
     in and_then (fire_all (filter (\<lambda>tm. due tm \<le> t) (timers s))
                    (s\<lparr>timers := filter (\<lambda>tm. \<not> due tm \<le> t) (timers s)\<rparr>))
          (\<lambda>s'. Inr (s'\<lparr>now := t\<rparr>)))"

subsection \<open>Events\<close>

text \<open>
  What the component can receive: a click on the theme button (line 131), a click on the
  Start button (rendered only while \<open>showDisclaimer\<close>, line 147), a request that settles
  with the text of the response or with a failure, and the passing of time.
\<close>

datatype event =
    Click_Theme
  | Click_Start
  | Fetch_Settled string "fetch_error + string"
  | Elapse nat

definition step :: "event \<Rightarrow> shell \<Rightarrow> error + shell" where
  "step e s = (case e of
      Click_Theme \<Rightarrow> and_then (toggleTheme s) (\<lambda>s'. Inr (rerender s s'))
    | Click_Start \<Rightarrow> if showDisclaimer s then Inr (confirm s) else Inr s
    | Fetch_Settled u r \<Rightarrow>
        if u \<in> set (pending s)
        then (let s0 = s\<lparr>pending := remove1 u (pending s)\<rparr>
              in case r of
                   Inr html \<Rightarrow> Inr (rerender s0 (setGameHtml html s0))
                 | Inl err \<Rightarrow> Inr (console_error ''Failed to load game'' s0))
        else Inr s
    | Elapse d \<Rightarrow> elapse d s)"

fun run :: "event list \<Rightarrow> shell \<Rightarrow> error + shell" where
  "run [] s = Inr s"
| "run (e # es) s = and_then (step e s) (run es)"

text \<open>Runs in which the setter of line 28 may be called as well.\<close>

datatype action = Ev event | Set_Active_Model string

definition act :: "action \<Rightarrow> shell \<Rightarrow> error + shell" where
  "act a s = (case a of Ev e \<Rightarrow> step e s | Set_Active_Model v \<Rightarrow> Inr (setActiveModel v s))"

fun run_actions :: "action list \<Rightarrow> shell \<Rightarrow> error + shell" where
  "run_actions [] s = Inr s"
| "run_actions (a # as) s = and_then (act a s) (run_actions as)"

subsection \<open>Observations\<close>

definition has_window :: "shell \<Rightarrow> bool" where
  "has_window s = (case iframeRef s of None \<Rightarrow> False | Some f \<Rightarrow> contentWindow f \<noteq> None)"

fun last_theme :: "(nat \<times> message) list \<Rightarrow> theme option" where
  "last_theme [] = None"
| "last_theme ((t, SET_THEME th) # ps) = (case last_theme ps of None \<Rightarrow> Some th | Some x \<Rightarrow> Some x)"
| "last_theme ((t, PAUSE_GAME b) # ps) = last_theme ps"

fun last_pause :: "(nat \<times> message) list \<Rightarrow> bool option" where
  "last_pause [] = None"
| "last_pause ((t, PAUSE_GAME b) # ps) = (case last_pause ps of None \<Rightarrow> Some b | Some x \<Rightarrow> Some x)"
| "last_pause ((t, SET_THEME th) # ps) = last_pause ps"

text \<open>The two messages of one timeout callback, sent at time \<open>t\<close>.\<close>

definition broadcast_at :: "nat \<Rightarrow> bool \<Rightarrow> theme \<Rightarrow> (nat \<times> message) list" where
  "broadcast_at t b th = [(t, PAUSE_GAME b), (t, SET_THEME th)]"


subsection \<open>Auxiliary notions for the proofs\<close>

text \<open>What a list of due timeouts posts when run from clock value \<open>n\<close>, and the clock after.\<close>

fun fired_messages :: "nat \<Rightarrow> timer list \<Rightarrow> (nat \<times> message) list" where
  "fired_messages n [] = []"
| "fired_messages n (tm # tms) =
     broadcast_at (max n (due tm)) (cap_showDisclaimer tm) (cap_themeMode tm) @
     fired_messages (max n (due tm)) tms"

fun clock_after :: "nat \<Rightarrow> timer list \<Rightarrow> nat" where
  "clock_after n [] = n"
| "clock_after n (tm # tms) = clock_after (max n (due tm)) tms"

text \<open>The ref holds exactly what a render of \<open>gameHtml\<close> mounts.\<close>

definition consistent :: "shell \<Rightarrow> bool" where
  "consistent s = (iframeRef s = commit_ref (gameHtml s) None)"

text \<open>Armed timeouts are in the order of their due times, none later than 100 ms from now.\<close>

definition timers_ok :: "shell \<Rightarrow> bool" where
  "timers_ok s = (sorted (map due (timers s)) \<and> list_all (\<lambda>tm. due tm \<le> now s + 100) (timers s))"

text \<open>
  With a window at hand, the newest armed timeout carries the current gate and theme;
  with none armed, the last messages posted do.
\<close>

definition synced :: "shell \<Rightarrow> bool" where
  "synced s = (\<not> has_window s \<or>
     (if timers s = []
      then last_theme (posted s) = Some (themeMode s) \<and>
           last_pause (posted s) = Some (showDisclaimer s)
      else cap_themeMode (last (timers s)) = themeMode s \<and>
           cap_showDisclaimer (last (timers s)) = showDisclaimer s))"

definition invariant :: "shell \<Rightarrow> bool" where
  "invariant s = (consistent s \<and> timers_ok s \<and> synced s)"

section \<open>Closed forms of the handlers\<close>

lemma and_then_Inr [simp]: "and_then (Inr x) f = f x"
  by (simp add: and_then_def)

lemma and_then_Inl [simp]: "and_then (Inl e) f = Inl e"
  by (simp add: and_then_def)

lemma optional_post_eq:
  "optional_post m s =
     Inr (if has_window s then s\<lparr>posted := posted s @ [(now s, m)]\<rparr> else s)"
  by (simp add: optional_post_def has_window_def postMessage_def split: option.splits)

lemma toggleTheme_eq:
  "toggleTheme s =
     Inr (if has_window s
          then s\<lparr>themeMode := (if themeMode s = Dark then Light else Dark),
                 posted := posted s @ [(now s, SET_THEME (if themeMode s = Dark then Light else Dark))]\<rparr>
          else s\<lparr>themeMode := (if themeMode s = Dark then Light else Dark)\<rparr>)"
  by (simp add: toggleTheme_def has_window_def get_contentWindow_def postMessage_def Let_def
           split: option.splits)

lemma fire_eq:
  "fire tm s =
     Inr (if has_window s
          then s\<lparr>now := max (now s) (due tm),
                 posted := posted s @
                   broadcast_at (max (now s) (due tm)) (cap_showDisclaimer tm) (cap_themeMode tm)\<rparr>
          else s\<lparr>now := max (now s) (due tm)\<rparr>)"
  by (simp add: fire_def optional_post_eq has_window_def broadcast_at_def)

lemma fire_all_eq:
  "fire_all tms s =
     Inr (s\<lparr>now := clock_after (now s) tms,
            posted := posted s @ (if has_window s then fired_messages (now s) tms else [])\<rparr>)"
proof (induction tms arbitrary: s)
  case Nil
  show ?case by simp
next
  case (Cons tm tms)
  show ?case
    by (simp add: fire_eq Cons.IH has_window_def)
qed

lemma elapse_eq:
  "elapse d s =
     Inr (s\<lparr>timers := filter (\<lambda>tm. \<not> due tm \<le> now s + d) (timers s),
            now := now s + d,
            posted := posted s @
              (if has_window s
               then fired_messages (now s) (filter (\<lambda>tm. due tm \<le> now s + d) (timers s))
               else [])\<rparr>)"
  by (simp add: elapse_def Let_def fire_all_eq has_window_def)

lemma step_total: "\<exists>s'. step e s = Inr s'"
  by (cases e) (auto simp: step_def toggleTheme_eq elapse_eq Let_def split: sum.splits)

lemma commit_ref_consistent: "consistent s \<Longrightarrow> commit_ref (gameHtml s) (iframeRef s) = iframeRef s"
  by (auto simp: consistent_def commit_ref_def split: option.splits)

lemma broadcast_effect_eq:
  "broadcast_effect s =
     (if has_window s
      then s\<lparr>timers := timers s @
             [\<lparr>due = now s + 100, cap_showDisclaimer = showDisclaimer s,
               cap_themeMode = themeMode s\<rparr>]\<rparr>
      else s)"
  by (simp add: broadcast_effect_def has_window_def split: option.splits)

lemma step_Click_Theme_eq:
  assumes "consistent s"
  shows "step Click_Theme s =
     Inr (if has_window s
          then s\<lparr>themeMode := (if themeMode s = Dark then Light else Dark),
                 timers := timers s @
                   [\<lparr>due = now s + 100, cap_showDisclaimer = showDisclaimer s,
                     cap_themeMode = (if themeMode s = Dark then Light else Dark)\<rparr>],
                 posted := posted s @ [(now s, SET_THEME (if themeMode s = Dark then Light else Dark))]\<rparr>
          else s\<lparr>themeMode := (if themeMode s = Dark then Light else Dark)\<rparr>)"
  using commit_ref_consistent [OF assms]
  by (simp add: step_def toggleTheme_eq rerender_def Let_def broadcast_effect_eq has_window_def)

lemma confirm_dismissed: "\<not> showDisclaimer s \<Longrightarrow> confirm s = s"
  by (simp add: confirm_def rerender_def)

lemma confirm_eq:
  assumes "consistent s" "showDisclaimer s"
  shows "confirm s =
     (if has_window s
      then s\<lparr>showDisclaimer := False,
             timers := timers s @
               [\<lparr>due = now s + 100, cap_showDisclaimer = False, cap_themeMode = themeMode s\<rparr>]\<rparr>
      else s\<lparr>showDisclaimer := False\<rparr>)"
  using commit_ref_consistent [OF assms(1)] assms(2)
  by (simp add: confirm_def rerender_def Let_def broadcast_effect_eq has_window_def)


section \<open>Invariants of every run\<close>

lemma last_theme_append:
  "last_theme (xs @ ys) = (case last_theme ys of None \<Rightarrow> last_theme xs | Some x \<Rightarrow> Some x)"
  by (induction xs rule: last_theme.induct) (auto split: option.splits)

lemma last_pause_append:
  "last_pause (xs @ ys) = (case last_pause ys of None \<Rightarrow> last_pause xs | Some x \<Rightarrow> Some x)"
  by (induction xs rule: last_pause.induct) (auto split: option.splits)

lemma last_theme_fired:
  "tms \<noteq> [] \<Longrightarrow> last_theme (fired_messages n tms) = Some (cap_themeMode (last tms))"
  by (induction n tms rule: fired_messages.induct)
     (auto simp: broadcast_at_def split: option.splits)

lemma last_pause_fired:
  "tms \<noteq> [] \<Longrightarrow> last_pause (fired_messages n tms) = Some (cap_showDisclaimer (last tms))"
  by (induction n tms rule: fired_messages.induct)
     (auto simp: broadcast_at_def split: option.splits)

lemma last_filter_keep: "xs \<noteq> [] \<Longrightarrow> P (last xs) \<Longrightarrow> last (filter P xs) = last xs"
  by (cases xs rule: rev_cases) auto

lemma last_filter_sorted:
  assumes "sorted (map due tms)" "filter (\<lambda>tm. \<not> due tm \<le> t) tms \<noteq> []"
  shows "last (filter (\<lambda>tm. \<not> due tm \<le> t) tms) = last tms"
proof -
  from assms(2) obtain x where x: "x \<in> set tms" "\<not> due x \<le> t"
    by (metis filter_False)
  then have ne: "tms \<noteq> []" by auto
  have "due x \<le> due (last tms)"
    using assms(1) x(1) ne
    by (induction tms) (auto split: if_splits)
  with x(2) have "\<not> due (last tms) \<le> t" by simp
  then show ?thesis using ne by (simp add: last_filter_keep)
qed

lemma filter_all_due:
  "list_all (\<lambda>tm. due tm \<le> t) tms \<Longrightarrow> filter (\<lambda>tm. \<not> due tm \<le> t) tms = [] \<and>
     filter (\<lambda>tm. due tm \<le> t) tms = tms"
  by (induction tms) auto


lemma invariant_mount: "invariant mount"
  by (simp add: invariant_def consistent_def timers_ok_def synced_def mount_def load_def
        initial_def broadcast_effect_def commit_ref_def has_window_def)

lemma invariant_Click_Theme:
  assumes "invariant s" "step Click_Theme s = Inr s'"
  shows "invariant s'"
proof -
  from assms(1) have c: "consistent s" and t: "timers_ok s" and y: "synced s"
    by (simp_all add: invariant_def)
  from assms(2) have s': "s' = (if has_window s
          then s\<lparr>themeMode := (if themeMode s = Dark then Light else Dark),
                 timers := timers s @
                   [\<lparr>due = now s + 100, cap_showDisclaimer = showDisclaimer s,
                     cap_themeMode = (if themeMode s = Dark then Light else Dark)\<rparr>],
                 posted := posted s @ [(now s, SET_THEME (if themeMode s = Dark then Light else Dark))]\<rparr>
          else s\<lparr>themeMode := (if themeMode s = Dark then Light else Dark)\<rparr>)"
    by (simp add: step_Click_Theme_eq [OF c])
  have "consistent s'" using c by (simp add: s' consistent_def)
  moreover have "timers_ok s'"
    using t by (auto simp: s' timers_ok_def sorted_append list_all_iff)
  moreover have "synced s'"
    using y by (auto simp: s' synced_def has_window_def)
  ultimately show ?thesis by (simp add: invariant_def)
qed

lemma invariant_Click_Start:
  assumes "invariant s" "step Click_Start s = Inr s'"
  shows "invariant s'"
proof (cases "showDisclaimer s")
  case False
  with assms show ?thesis by (simp add: step_def)
next
  case True
  from assms(1) have c: "consistent s" and t: "timers_ok s" and y: "synced s"
    by (simp_all add: invariant_def)
  from assms(2) True have s': "s' = (if has_window s
      then s\<lparr>showDisclaimer := False,
             timers := timers s @
               [\<lparr>due = now s + 100, cap_showDisclaimer = False, cap_themeMode = themeMode s\<rparr>]\<rparr>
      else s\<lparr>showDisclaimer := False\<rparr>)"
    by (simp add: step_def confirm_eq [OF c True])
  have "consistent s'" using c by (simp add: s' consistent_def)
  moreover have "timers_ok s'"
    using t by (auto simp: s' timers_ok_def sorted_append list_all_iff)
  moreover have "synced s'"
    using y by (auto simp: s' synced_def has_window_def)
  ultimately show ?thesis by (simp add: invariant_def)
qed

lemma invariant_Elapse:
  assumes "invariant s" "step (Elapse d) s = Inr s'"
  shows "invariant s'"
proof -
  from assms(1) have c: "consistent s" and t: "timers_ok s" and y: "synced s"
    by (simp_all add: invariant_def)
  let ?t = "now s + d"
  let ?rest = "filter (\<lambda>tm. \<not> due tm \<le> ?t) (timers s)"
  let ?fired = "filter (\<lambda>tm. due tm \<le> ?t) (timers s)"
  from assms(2) have s': "s' = s\<lparr>timers := ?rest, now := ?t,
            posted := posted s @ (if has_window s then fired_messages (now s) ?fired else [])\<rparr>"
    by (simp add: step_def elapse_eq)
  have "consistent s'" using c by (simp add: s' consistent_def)
  moreover have "timers_ok s'"
    using t by (auto simp: s' timers_ok_def sorted_filter list_all_iff)
  moreover have "synced s'"
  proof (cases "has_window s")
    case False
    then show ?thesis by (simp add: s' synced_def has_window_def)
  next
    case True
    then have hw: "has_window s'" by (simp add: s' has_window_def)
    show ?thesis
    proof (cases "?rest = []")
      case False
      then have ne: "timers s \<noteq> []" by auto
      from t have "sorted (map due (timers s))" by (simp add: timers_ok_def)
      from last_filter_sorted [OF this False] ne y True False show ?thesis
        by (simp add: s' synced_def has_window_def)
    next
      case rest: True
      then have all: "?fired = timers s"
        by (induction "timers s") (auto simp: filter_empty_conv filter_id_conv)
      show ?thesis
      proof (cases "timers s = []")
        case True
        with y \<open>has_window s\<close> show ?thesis
          by (simp add: s' synced_def has_window_def)
      next
        case False
        with y \<open>has_window s\<close> rest all show ?thesis
          by (simp add: s' synced_def has_window_def last_theme_append last_pause_append
                last_theme_fired last_pause_fired)
      qed
    qed
  qed
  ultimately show ?thesis by (simp add: invariant_def)
qed


lemma step_Fetch_failed_eq:
  "step (Fetch_Settled u (Inl err)) s =
     Inr (if u \<in> set (pending s)
          then s\<lparr>pending := remove1 u (pending s),
                 console := console s @ [''Failed to load game'']\<rparr>
          else s)"
  by (simp add: step_def console_error_def Let_def)

lemma step_Fetch_resolved_eq:
  assumes "consistent s" "u \<in> set (pending s)"
  shows "step (Fetch_Settled u (Inr html)) s =
     Inr (if gameHtml s = Some html then s\<lparr>pending := remove1 u (pending s)\<rparr>
          else if html = [] then s\<lparr>pending := remove1 u (pending s), gameHtml := Some html,
                 iframeRef := None\<rparr>
          else s\<lparr>pending := remove1 u (pending s), gameHtml := Some html,
                 iframeRef := Some \<lparr>srcDoc = html, contentWindow = Some WindowProxy\<rparr>,
                 timers := timers s @
                   [\<lparr>due = now s + 100, cap_showDisclaimer = showDisclaimer s,
                     cap_themeMode = themeMode s\<rparr>]\<rparr>)"
  using assms
  by (auto simp: step_def Let_def rerender_def setGameHtml_def broadcast_effect_def
        consistent_def commit_ref_def split: option.splits)

lemma invariant_Fetch_Settled:
  assumes "invariant s" "step (Fetch_Settled u r) s = Inr s'"
  shows "invariant s'"
proof (cases "u \<in> set (pending s)")
  case False
  with assms show ?thesis by (simp add: step_def)
next
  case True
  from assms(1) have c: "consistent s" and t: "timers_ok s" and y: "synced s"
    by (simp_all add: invariant_def)
  show ?thesis
  proof (cases r)
    case (Inl err)
    with assms(2) True have s': "s' = s\<lparr>pending := remove1 u (pending s),
                 console := console s @ [''Failed to load game'']\<rparr>"
      by (simp add: step_Fetch_failed_eq)
    show ?thesis using c t y
      by (simp add: s' invariant_def consistent_def timers_ok_def synced_def has_window_def)
  next
    case (Inr html)
    note s' = assms(2) [unfolded Inr step_Fetch_resolved_eq [OF c True], simplified]
    have "consistent s'" using c
      by (auto simp: s' [symmetric] consistent_def commit_ref_def split: if_splits)
    moreover have "timers_ok s'"
      using t by (auto simp: s' [symmetric] timers_ok_def sorted_append list_all_iff split: if_splits)
    moreover have "synced s'"
      using y by (auto simp: s' [symmetric] synced_def has_window_def split: if_splits)
    ultimately show ?thesis by (simp add: invariant_def)
  qed
qed

lemma invariant_step: "invariant s \<Longrightarrow> step e s = Inr s' \<Longrightarrow> invariant s'"
  by (cases e)
     (auto intro: invariant_Click_Theme invariant_Click_Start invariant_Fetch_Settled
        invariant_Elapse)

lemma setActiveModel_eq:
  assumes "consistent s"
  shows "setActiveModel v s =
     (if v = activeModel s then s
      else s\<lparr>activeModel := v, pending := pending s @ [url_of v],
             fetched := fetched s @ [url_of v]\<rparr>)"
  using commit_ref_consistent [OF assms]
  by (auto simp: setActiveModel_def rerender_def Let_def load_def)

lemma invariant_setActiveModel: "invariant s \<Longrightarrow> invariant (setActiveModel v s)"
  by (simp add: invariant_def setActiveModel_eq consistent_def timers_ok_def synced_def
        has_window_def)

lemma invariant_act: "invariant s \<Longrightarrow> act a s = Inr s' \<Longrightarrow> invariant s'"
  by (cases a) (auto simp: act_def intro: invariant_step invariant_setActiveModel)

lemma act_total: "\<exists>s'. act a s = Inr s'"
  by (cases a) (simp_all add: act_def step_total)

lemma run_actions_total: "\<exists>s'. run_actions as s = Inr s'"
proof (induction as arbitrary: s)
  case Nil
  show ?case by simp
next
  case (Cons a as)
  obtain s1 where "act a s = Inr s1" using act_total by blast
  with Cons.IH [of s1] show ?case by simp
qed

lemma invariant_run_actions:
  "invariant s \<Longrightarrow> run_actions as s = Inr s' \<Longrightarrow> invariant s'"
proof (induction as arbitrary: s)
  case Nil
  then show ?case by simp
next
  case (Cons a as)
  obtain s1 where s1: "act a s = Inr s1" using act_total by blast
  with Cons.prems have "invariant s1" "run_actions as s1 = Inr s'"
    by (auto intro: invariant_act)
  then show ?case by (rule Cons.IH)
qed

lemma run_as_actions: "run es s = run_actions (map Ev es) s"
proof (induction es arbitrary: s)
  case Nil
  show ?case by simp
next
  case (Cons e es)
  obtain s1 where "step e s = Inr s1" using step_total by blast
  with Cons.IH [of s1] show ?case by (simp add: act_def)
qed

lemma run_total: "\<exists>s'. run es s = Inr s'"
  by (simp add: run_as_actions run_actions_total)

lemma invariant_run: "invariant s \<Longrightarrow> run es s = Inr s' \<Longrightarrow> invariant s'"
  by (simp add: run_as_actions invariant_run_actions)

lemma run_append:
  "run (es @ fs) s = and_then (run es s) (run fs)"
proof (induction es arbitrary: s)
  case Nil
  show ?case by simp
next
  case (Cons e es)
  obtain s1 where "step e s = Inr s1" using step_total by blast
  with Cons.IH [of s1] show ?case by simp
qed

section \<open>Content resolution\<close>

text \<open>
  When the request is rejected (no response, or \<open>res.text()\<close> fails), the \<open>catch\<close> branch
  of \<open>load\<close> only writes to the console. The payload \<open>gameHtml\<close>, the mounted element, the
  armed timeouts, the messages posted and every other state cell are as before.
\<close>

lemma fetch_failure_keeps_payload:
  "\<exists>s'. step (Fetch_Settled u (Inl FetchError)) s = Inr s' \<and>
        gameHtml s' = gameHtml s \<and> iframeRef s' = iframeRef s \<and>
        timers s' = timers s \<and> posted s' = posted s \<and> fetched s' = fetched s \<and>
        themeMode s' = themeMode s \<and> showDisclaimer s' = showDisclaimer s \<and>
        activeModel s' = activeModel s \<and> now s' = now s \<and>
        console s' = (if u \<in> set (pending s) then console s @ [''Failed to load game'']
                      else console s)"
  by (simp add: step_Fetch_failed_eq)

lemma resolved_installs:
  assumes "u \<in> set (pending s)"
  shows "\<exists>s'. step (Fetch_Settled u (Inr html)) s = Inr s' \<and> gameHtml s' = Some html \<and>
           activeModel s' = activeModel s \<and> pending s' = remove1 u (pending s)"
  using assms
  by (simp add: step_def Let_def rerender_def setGameHtml_def broadcast_effect_eq load_def)

lemma answered_is_installed:
  assumes "u \<in> set (pending s)"
  shows "\<exists>s'. step (Fetch_Settled u (answered res)) s = Inr s' \<and>
           gameHtml s' = Some (body res)"
  using resolved_installs [OF assms, of "body res"] by (auto simp: answered_def)

text \<open>
  C4: a resolution that fails must leave the payload as it was and mount nothing. The
  code does not do so when the failure is an error status, since the body of any answer
  is installed: on a fresh load, where there is no payload and no element, a \<open>404\<close>
  answer with body \<open>Not Found\<close> is installed as \<open>gameHtml\<close>, an iframe is mounted with
  it, the broadcast is armed and nothing is written to the console.
\<close>

theorem http_error_body_is_mounted:
  "gameHtml mount = None \<and> iframeRef mount = None \<and>
   map_sum id gameHtml
     (run [Fetch_Settled ''./init/gemini3.html''
             (answered \<lparr>ok = False, status = 404, body = ''Not Found''\<rparr>)] mount) =
     Inr (Some ''Not Found'') \<and>
   map_sum id iframeRef
     (run [Fetch_Settled ''./init/gemini3.html''
             (answered \<lparr>ok = False, status = 404, body = ''Not Found''\<rparr>)] mount) =
     Inr (Some \<lparr>srcDoc = ''Not Found'', contentWindow = Some WindowProxy\<rparr>) \<and>
   map_sum id timers
     (run [Fetch_Settled ''./init/gemini3.html''
             (answered \<lparr>ok = False, status = 404, body = ''Not Found''\<rparr>)] mount) =
     Inr [\<lparr>due = 100, cap_showDisclaimer = True, cap_themeMode = Light\<rparr>] \<and>
   map_sum id console
     (run [Fetch_Settled ''./init/gemini3.html''
             (answered \<lparr>ok = False, status = 404, body = ''Not Found''\<rparr>)] mount) = Inr []"
  by code_simp

lemma step_keeps_model:
  assumes "step e s = Inr s'"
  shows "activeModel s' = activeModel s \<and> fetched s' = fetched s \<and>
         set (pending s') \<subseteq> set (pending s)"
proof (cases e)
  case Click_Theme
  with assms show ?thesis
    by (auto simp: step_def toggleTheme_eq rerender_def Let_def broadcast_effect_eq
          split: if_splits)
next
  case Click_Start
  with assms show ?thesis
    by (auto simp: step_def confirm_def rerender_def Let_def broadcast_effect_eq
          split: if_splits)
next
  case (Fetch_Settled u r)
  with assms show ?thesis
    by (cases r)
       (auto simp: step_def rerender_def Let_def broadcast_effect_eq setGameHtml_def
          console_error_def split: if_splits dest: set_remove1_subset [THEN subsetD])
next
  case (Elapse d)
  with assms show ?thesis by (auto simp: step_def elapse_eq)
qed

lemma run_keeps_model:
  "run es s = Inr s' \<Longrightarrow>
     activeModel s' = activeModel s \<and> fetched s' = fetched s \<and>
     set (pending s') \<subseteq> set (pending s)"
proof (induction es arbitrary: s)
  case Nil
  then show ?case by simp
next
  case (Cons e es)
  obtain s1 where s1: "step e s = Inr s1" using step_total by blast
  with Cons.prems have "run es s1 = Inr s'" by simp
  from Cons.IH [OF this] step_keeps_model [OF s1] show ?case by auto
qed

text \<open>
  C10: whatever events the component receives after its first render, \<open>activeModel\<close> stays
  \<open>'gemini3'\<close>, the one \<open>fetch\<close> ever issued is for \<open>./init/gemini3.html\<close>, and the URL of
  the other variant is never requested.
\<close>

theorem variant_is_constant:
  "\<exists>s. run es mount = Inr s \<and> activeModel s = ''gemini3'' \<and>
       fetched s = [''./init/gemini3.html''] \<and>
       ''./init/gemini2p5.html'' \<notin> set (fetched s) \<and>
       ''./init/gemini2p5.html'' \<notin> set (pending s)"
proof -
  obtain s where s: "run es mount = Inr s" using run_total by blast
  have m: "activeModel mount = ''gemini3''" "fetched mount = [''./init/gemini3.html'']"
    "pending mount = [''./init/gemini3.html'']"
    by (simp_all add: mount_def load_def initial_def broadcast_effect_def url_of_def)
  from run_keeps_model [OF s] m show ?thesis using s by auto
qed

section \<open>The onboarding gate\<close>

lemma step_keeps_dismissed:
  assumes "\<not> showDisclaimer s" "step e s = Inr s'"
  shows "\<not> showDisclaimer s'"
proof (cases e)
  case Click_Theme
  with assms show ?thesis
    by (auto simp: step_def toggleTheme_eq rerender_def Let_def broadcast_effect_eq
          load_def split: if_splits)
next
  case Click_Start
  with assms show ?thesis by (simp add: step_def)
next
  case (Fetch_Settled u r)
  with assms show ?thesis
    by (cases r)
       (auto simp: step_def rerender_def Let_def broadcast_effect_eq setGameHtml_def
          console_error_def load_def split: if_splits)
next
  case (Elapse d)
  with assms show ?thesis by (auto simp: step_def elapse_eq)
qed

lemma run_keeps_dismissed:
  "\<not> showDisclaimer s \<Longrightarrow> run es s = Inr s' \<Longrightarrow> \<not> showDisclaimer s'"
proof (induction es arbitrary: s)
  case Nil
  then show ?case by simp
next
  case (Cons e es)
  obtain s1 where s1: "step e s = Inr s1" using step_total by blast
  with Cons.prems have "run es s1 = Inr s'" by simp
  with step_keeps_dismissed [OF Cons.prems(1) s1] show ?case by (rule Cons.IH)
qed

lemma confirm_dismisses: "\<not> showDisclaimer (confirm s)"
  by (simp add: confirm_def rerender_def Let_def broadcast_effect_eq load_def)

text \<open>
  C5: \<open>showDisclaimer\<close> is \<open>true\<close> after the first render, the Start button sets it to
  \<open>false\<close>, and once it is \<open>false\<close> no run of events makes it \<open>true\<close> again. A further
  confirmation then changes nothing at all: no timeout is armed and nothing is posted.
\<close>

theorem gate_is_monotone:
  "showDisclaimer mount \<and>
   (\<exists>s1. step Click_Start s = Inr s1 \<and> \<not> showDisclaimer s1) \<and>
   (\<not> showDisclaimer s \<longrightarrow>
      (\<exists>s'. run es s = Inr s' \<and> \<not> showDisclaimer s') \<and>
      step Click_Start s = Inr s \<and> confirm s = s)"
proof -
  have "showDisclaimer mount"
    by (simp add: mount_def load_def initial_def broadcast_effect_def)
  moreover have "\<exists>s1. step Click_Start s = Inr s1 \<and> \<not> showDisclaimer s1"
    by (simp add: step_def confirm_dismisses)
  moreover have "\<exists>s'. run es s = Inr s' \<and> \<not> showDisclaimer s'" if "\<not> showDisclaimer s"
    using run_total [of es s] run_keeps_dismissed [OF that] by blast
  moreover have "step Click_Start s = Inr s" "confirm s = s" if "\<not> showDisclaimer s"
    using that by (simp_all add: step_def confirm_dismissed)
  ultimately show ?thesis by blast
qed

theorem gate_is_monotone_witness:
  "\<not> showDisclaimer (confirm mount) \<and>
   (\<exists>s'. run [Click_Start, Click_Theme, Click_Start] (confirm mount) = Inr s' \<and> \<not> showDisclaimer s') \<and>
   step Click_Start (confirm mount) = Inr (confirm mount) \<and>
   confirm (confirm mount) = confirm mount"
  using gate_is_monotone [of "confirm mount" "[Click_Start, Click_Theme, Click_Start]"]
    confirm_dismisses [of mount]
  by (simp del: run.simps)

section \<open>Sending without a window\<close>

text \<open>
  C9: no event makes a handler throw, and neither \<open>toggleTheme\<close> nor the timeout callback
  throws in any state. While \<open>iframeRef.current\<close> is \<open>null\<close> or its \<open>contentWindow\<close> is,
  both send paths leave the posted messages as they are.
\<close>

theorem missing_handle_drops_sends:
  "(\<exists>s'. step e s = Inr s') \<and>
   (\<exists>s'. toggleTheme s = Inr s') \<and>
   (\<exists>s'. fire tm s = Inr s') \<and>
   (\<not> has_window s \<longrightarrow>
      (\<exists>s'. toggleTheme s = Inr s' \<and> posted s' = posted s) \<and>
      (\<exists>s'. fire tm s = Inr s' \<and> posted s' = posted s) \<and>
      (\<exists>s'. step Click_Theme s = Inr s' \<and> posted s' = posted s) \<and>
      (\<exists>s'. step (Elapse d) s = Inr s' \<and> posted s' = posted s))"
proof -
  have "\<exists>s'. step Click_Theme s = Inr s' \<and> posted s' = posted s" if "\<not> has_window s"
    using that
    by (simp add: step_def toggleTheme_eq rerender_def Let_def broadcast_effect_eq load_def)
  moreover have "\<exists>s'. step (Elapse d) s = Inr s' \<and> posted s' = posted s" if "\<not> has_window s"
    using that by (simp add: step_def elapse_eq)
  ultimately show ?thesis
    using step_total [of e s] by (simp add: toggleTheme_eq fire_eq)
qed

theorem missing_handle_drops_sends_witness:
  "\<not> has_window mount \<and>
   \<not> has_window (mount\<lparr>iframeRef := Some \<lparr>srcDoc = ''<html>'', contentWindow = None\<rparr>\<rparr>) \<and>
   (\<exists>s'. toggleTheme mount = Inr s' \<and> posted s' = posted mount) \<and>
   (\<exists>s'. fire \<lparr>due = 100, cap_showDisclaimer = True, cap_themeMode = Light\<rparr>
            (mount\<lparr>iframeRef := Some \<lparr>srcDoc = ''<html>'', contentWindow = None\<rparr>\<rparr>) = Inr s' \<and>
         posted s' = posted mount)"
proof -
  have a: "\<not> has_window mount"
    by (simp add: has_window_def mount_def load_def initial_def broadcast_effect_def)
  have b: "\<not> has_window (mount\<lparr>iframeRef := Some \<lparr>srcDoc = ''<html>'', contentWindow = None\<rparr>\<rparr>)"
    by (simp add: has_window_def)
  from a b
    missing_handle_drops_sends [of Click_Theme mount
      "\<lparr>due = 100, cap_showDisclaimer = True, cap_themeMode = Light\<rparr>" 0]
    missing_handle_drops_sends [of Click_Theme
      "mount\<lparr>iframeRef := Some \<lparr>srcDoc = ''<html>'', contentWindow = None\<rparr>\<rparr>"
      "\<lparr>due = 100, cap_showDisclaimer = True, cap_themeMode = Light\<rparr>" 0]
  show ?thesis by simp
qed

section \<open>Broadcasts and the settle delay\<close>

lemma mount_eq:
  "mount = initial\<lparr>pending := [''./init/gemini3.html''], fetched := [''./init/gemini3.html'']\<rparr>"
  by (simp add: mount_def load_def initial_def broadcast_effect_def url_of_def)

lemma reachable_consistent: "run es mount = Inr s \<Longrightarrow> consistent s"
  using invariant_run [OF invariant_mount] by (simp add: invariant_def)

text \<open>
  C6 (as amended): on a fresh load (theme \<open>light\<close>, gate shown), when the request resolves
  at time \<open>d0\<close> with non-empty content, nothing is posted for 100 ms, and the broadcast
  at \<open>d0 + 100\<close> is \<open>PAUSE_GAME(true)\<close> followed by \<open>SET_THEME("light")\<close>, in the order of
  lines 66 and 68.
\<close>

theorem initial_broadcast_is_pause_then_theme:
  assumes "html \<noteq> []"
  shows "\<exists>s. run [Elapse d0, Fetch_Settled ''./init/gemini3.html'' (Inr html), Elapse d] mount = Inr s \<and>
     posted s = (if d < 100 then []
                 else [(d0 + 100, PAUSE_GAME True), (d0 + 100, SET_THEME Light)])"
  using assms
  by (simp add: mount_eq initial_def step_def elapse_eq has_window_def rerender_def Let_def
        setGameHtml_def commit_ref_def broadcast_effect_def broadcast_at_def)

theorem initial_broadcast_is_pause_then_theme_witness:
  "''<html>'' \<noteq> [] \<and>
   (\<exists>s. run [Elapse 40, Fetch_Settled ''./init/gemini3.html'' (Inr ''<html>''), Elapse 100] mount = Inr s \<and>
     posted s = [(140, PAUSE_GAME True), (140, SET_THEME Light)])"
  using initial_broadcast_is_pause_then_theme [of "''<html>''" 40 100]
  by (simp del: run.simps)

text \<open>
  C6 as stated, with \<open>SET_THEME\<close> first, fails: the first message posted is \<open>PAUSE_GAME\<close>.
\<close>

theorem initial_broadcast_counterexample:
  "map_sum id posted
     (run [Fetch_Settled ''./init/gemini3.html'' (Inr ''<html>''), Elapse 100] mount) =
   Inr [(100, PAUSE_GAME True), (100, SET_THEME Light)] \<and>
   map_sum id posted
     (run [Fetch_Settled ''./init/gemini3.html'' (Inr ''<html>''), Elapse 100] mount) \<noteq>
   Inr [(100, SET_THEME Light), (100, PAUSE_GAME True)]"
  by (simp add: mount_eq initial_def step_def elapse_eq has_window_def rerender_def Let_def
        setGameHtml_def commit_ref_def broadcast_effect_def broadcast_at_def)


lemma step_Elapse: "step (Elapse d) s = elapse d s"
  by (simp add: step_def)

lemma step_Click_Start: "step Click_Start s = Inr (if showDisclaimer s then confirm s else s)"
  by (simp add: step_def)

lemma fired_messages_append:
  "fired_messages n (xs @ ys) = fired_messages n xs @ fired_messages (clock_after n xs) ys"
  by (induction n xs rule: fired_messages.induct) simp_all

lemma clock_after_le:
  "n \<le> m \<Longrightarrow> list_all (\<lambda>tm. due tm \<le> m) xs \<Longrightarrow> clock_after n xs \<le> m"
  by (induction n xs rule: clock_after.induct) simp_all

lemma elapse_after_arming:
  assumes "timers_ok s" "has_window s1" "now s1 = now s"
    "timers s1 = timers s @ [\<lparr>due = now s + 100, cap_showDisclaimer = b, cap_themeMode = th\<rparr>]"
  shows "\<exists>s'. step (Elapse d) s1 = Inr s' \<and>
           posted s' = posted s1 @
             fired_messages (now s) (filter (\<lambda>tm. due tm \<le> now s + d) (timers s)) @
             (if d < 100 then [] else broadcast_at (now s + 100) b th)"
proof -
  let ?old = "filter (\<lambda>tm. due tm \<le> now s + d) (timers s)"
  from assms(1) have "list_all (\<lambda>tm. due tm \<le> now s + 100) ?old"
    by (auto simp: timers_ok_def list_all_iff)
  then have "clock_after (now s) ?old \<le> now s + 100"
    by (intro clock_after_le) simp_all
  then have "max (clock_after (now s) ?old) (now s + 100) = now s + 100"
    by simp
  with assms(2-4) show ?thesis
    by (simp add: step_Elapse elapse_eq fired_messages_append not_less)
qed


lemma reachable_timers_ok: "run es mount = Inr s \<Longrightarrow> timers_ok s"
  using invariant_run [OF invariant_mount] by (simp add: invariant_def)

text \<open>
  C3 (as amended): in every state the component reaches, whatever timeouts are still
  armed, each of the three changes the effect of lines 62-71 depends on (a surface mounts,
  the gate is confirmed, the theme is toggled) posts nothing of its broadcast at once and
  arms one more timeout, due 100 ms later, behind those already armed. When \<open>d\<close> ms have
  passed, the timeouts armed before have posted what they carry if they fell due, and the
  pair \<open>PAUSE_GAME\<close>, \<open>SET_THEME\<close> of this change follows at time \<open>now + 100\<close> exactly when
  \<open>d\<close> is at least 100. The only message sent at once is the \<open>SET_THEME\<close> that
  \<open>toggleTheme\<close> itself posts.
\<close>

theorem broadcasts_wait_for_settle_delay:
  assumes "run es mount = Inr s"
  shows "(\<not> truthy (gameHtml s) \<and> u \<in> set (pending s) \<and> html \<noteq> [] \<longrightarrow>
            (\<exists>s1 s'. step (Fetch_Settled u (Inr html)) s = Inr s1 \<and> posted s1 = posted s \<and>
               timers s1 = timers s @
                 [\<lparr>due = now s + 100, cap_showDisclaimer = showDisclaimer s,
                   cap_themeMode = themeMode s\<rparr>] \<and>
               step (Elapse d) s1 = Inr s' \<and>
               posted s' = posted s @
                 fired_messages (now s) (filter (\<lambda>tm. due tm \<le> now s + d) (timers s)) @
                 (if d < 100 then []
                  else broadcast_at (now s + 100) (showDisclaimer s) (themeMode s)))) \<and>
         (has_window s \<and> showDisclaimer s \<longrightarrow>
            (\<exists>s1 s'. step Click_Start s = Inr s1 \<and> posted s1 = posted s \<and>
               timers s1 = timers s @
                 [\<lparr>due = now s + 100, cap_showDisclaimer = False, cap_themeMode = themeMode s\<rparr>] \<and>
               step (Elapse d) s1 = Inr s' \<and>
               posted s' = posted s @
                 fired_messages (now s) (filter (\<lambda>tm. due tm \<le> now s + d) (timers s)) @
                 (if d < 100 then [] else broadcast_at (now s + 100) False (themeMode s)))) \<and>
         (has_window s \<longrightarrow>
            (\<exists>s1 s'. step Click_Theme s = Inr s1 \<and>
               posted s1 = posted s @
                 [(now s, SET_THEME (if themeMode s = Dark then Light else Dark))] \<and>
               timers s1 = timers s @
                 [\<lparr>due = now s + 100, cap_showDisclaimer = showDisclaimer s,
                   cap_themeMode = (if themeMode s = Dark then Light else Dark)\<rparr>] \<and>
               step (Elapse d) s1 = Inr s' \<and>
               posted s' = posted s @
                 (now s, SET_THEME (if themeMode s = Dark then Light else Dark)) #
                 fired_messages (now s) (filter (\<lambda>tm. due tm \<le> now s + d) (timers s)) @
                 (if d < 100 then []
                  else broadcast_at (now s + 100) (showDisclaimer s)
                         (if themeMode s = Dark then Light else Dark))))"
proof -
  have c: "consistent s" using assms by (rule reachable_consistent)
  have t: "timers_ok s" using assms by (rule reachable_timers_ok)
  have A: "\<exists>s1 s'. step (Fetch_Settled u (Inr html)) s = Inr s1 \<and> posted s1 = posted s \<and>
               timers s1 = timers s @
                 [\<lparr>due = now s + 100, cap_showDisclaimer = showDisclaimer s,
                   cap_themeMode = themeMode s\<rparr>] \<and>
               step (Elapse d) s1 = Inr s' \<and>
               posted s' = posted s @
                 fired_messages (now s) (filter (\<lambda>tm. due tm \<le> now s + d) (timers s)) @
                 (if d < 100 then []
                  else broadcast_at (now s + 100) (showDisclaimer s) (themeMode s))"
    if h: "\<not> truthy (gameHtml s)" "u \<in> set (pending s)" "html \<noteq> []"
  proof -
    obtain s1 where s1: "step (Fetch_Settled u (Inr html)) s = Inr s1"
      using step_total by blast
    from s1 h have f: "posted s1 = posted s" "now s1 = now s" "has_window s1"
      "timers s1 = timers s @
         [\<lparr>due = now s + 100, cap_showDisclaimer = showDisclaimer s,
           cap_themeMode = themeMode s\<rparr>]"
      by (auto simp: step_Fetch_resolved_eq [OF c] has_window_def truthy_def)
    from elapse_after_arming [OF t f(3,2,4), of d] s1 f show ?thesis by auto
  qed
  have B: "\<exists>s1 s'. step Click_Start s = Inr s1 \<and> posted s1 = posted s \<and>
               timers s1 = timers s @
                 [\<lparr>due = now s + 100, cap_showDisclaimer = False, cap_themeMode = themeMode s\<rparr>] \<and>
               step (Elapse d) s1 = Inr s' \<and>
               posted s' = posted s @
                 fired_messages (now s) (filter (\<lambda>tm. due tm \<le> now s + d) (timers s)) @
                 (if d < 100 then [] else broadcast_at (now s + 100) False (themeMode s))"
    if h: "has_window s" "showDisclaimer s"
  proof -
    obtain s1 where s1: "step Click_Start s = Inr s1" using step_total by blast
    from s1 h have f: "posted s1 = posted s" "now s1 = now s" "has_window s1"
      "timers s1 = timers s @
         [\<lparr>due = now s + 100, cap_showDisclaimer = False, cap_themeMode = themeMode s\<rparr>]"
      by (auto simp: step_Click_Start confirm_eq [OF c] has_window_def)
    from elapse_after_arming [OF t f(3,2,4), of d] s1 f show ?thesis by auto
  qed
  have C: "\<exists>s1 s'. step Click_Theme s = Inr s1 \<and>
               posted s1 = posted s @
                 [(now s, SET_THEME (if themeMode s = Dark then Light else Dark))] \<and>
               timers s1 = timers s @
                 [\<lparr>due = now s + 100, cap_showDisclaimer = showDisclaimer s,
                   cap_themeMode = (if themeMode s = Dark then Light else Dark)\<rparr>] \<and>
               step (Elapse d) s1 = Inr s' \<and>
               posted s' = posted s @
                 (now s, SET_THEME (if themeMode s = Dark then Light else Dark)) #
                 fired_messages (now s) (filter (\<lambda>tm. due tm \<le> now s + d) (timers s)) @
                 (if d < 100 then []
                  else broadcast_at (now s + 100) (showDisclaimer s)
                         (if themeMode s = Dark then Light else Dark))"
    if h: "has_window s"
  proof -
    obtain s1 where s1: "step Click_Theme s = Inr s1" using step_total by blast
    from s1 h have f:
      "posted s1 = posted s @ [(now s, SET_THEME (if themeMode s = Dark then Light else Dark))]"
      "now s1 = now s" "has_window s1"
      "timers s1 = timers s @
         [\<lparr>due = now s + 100, cap_showDisclaimer = showDisclaimer s,
           cap_themeMode = (if themeMode s = Dark then Light else Dark)\<rparr>]"
      by (auto simp: step_Click_Theme_eq [OF c] has_window_def)
    from elapse_after_arming [OF t f(3,2,4), of d] s1 f show ?thesis by auto
  qed
  from A B C show ?thesis by blast
qed



theorem broadcasts_wait_for_settle_delay_witness:
  "(\<exists>s1 s'. step (Fetch_Settled ''./init/gemini3.html'' (Inr ''<html>'')) mount = Inr s1 \<and>
         posted s1 = [] \<and> step (Elapse 99) s1 = Inr s' \<and> posted s' = []) \<and>
   (\<exists>s1 s'. step (Fetch_Settled ''./init/gemini3.html'' (Inr ''<html>'')) mount = Inr s1 \<and>
         posted s1 = [] \<and> step (Elapse 100) s1 = Inr s' \<and>
         posted s' = [(100, PAUSE_GAME True), (100, SET_THEME Light)]) \<and>
   run [Fetch_Settled ''./init/gemini3.html'' (Inr ''<html>''), Elapse 50] mount =
     Inr (mount\<lparr>pending := [], gameHtml := Some ''<html>'',
            iframeRef := Some \<lparr>srcDoc = ''<html>'', contentWindow = Some WindowProxy\<rparr>,
            timers := [\<lparr>due = 100, cap_showDisclaimer = True, cap_themeMode = Light\<rparr>],
            now := 50\<rparr>) \<and>
   (\<exists>s1 s'. step Click_Start
           (mount\<lparr>pending := [], gameHtml := Some ''<html>'',
              iframeRef := Some \<lparr>srcDoc = ''<html>'', contentWindow = Some WindowProxy\<rparr>,
              timers := [\<lparr>due = 100, cap_showDisclaimer = True, cap_themeMode = Light\<rparr>],
              now := 50\<rparr>) = Inr s1 \<and>
         posted s1 = [] \<and>
         timers s1 = [\<lparr>due = 100, cap_showDisclaimer = True, cap_themeMode = Light\<rparr>,
                      \<lparr>due = 150, cap_showDisclaimer = False, cap_themeMode = Light\<rparr>] \<and>
         step (Elapse 100) s1 = Inr s' \<and>
         posted s' = [(100, PAUSE_GAME True), (100, SET_THEME Light),
                      (150, PAUSE_GAME False), (150, SET_THEME Light)]) \<and>
   (\<exists>s1 s'. step Click_Theme
           (mount\<lparr>pending := [], gameHtml := Some ''<html>'',
              iframeRef := Some \<lparr>srcDoc = ''<html>'', contentWindow = Some WindowProxy\<rparr>,
              timers := [\<lparr>due = 100, cap_showDisclaimer = True, cap_themeMode = Light\<rparr>],
              now := 50\<rparr>) = Inr s1 \<and>
         posted s1 = [(50, SET_THEME Dark)] \<and>
         step (Elapse 99) s1 = Inr s' \<and>
         posted s' = [(50, SET_THEME Dark), (100, PAUSE_GAME True), (100, SET_THEME Light)])"
proof -
  let ?s = "mount\<lparr>pending := [], gameHtml := Some ''<html>'',
              iframeRef := Some \<lparr>srcDoc = ''<html>'', contentWindow = Some WindowProxy\<rparr>,
              timers := [\<lparr>due = 100, cap_showDisclaimer = True, cap_themeMode = Light\<rparr>],
              now := 50\<rparr>"
  have m: "run [] mount = Inr mount" "timers mount = []" "\<not> truthy (gameHtml mount)"
    "''./init/gemini3.html'' \<in> set (pending mount)" "posted mount = []" "now mount = 0"
    "showDisclaimer mount" "themeMode mount = Light"
    by (simp_all add: mount_eq initial_def truthy_def)
  have r: "run [Fetch_Settled ''./init/gemini3.html'' (Inr ''<html>''), Elapse 50] mount = Inr ?s"
    by code_simp
  have s: "timers ?s = [\<lparr>due = 100, cap_showDisclaimer = True, cap_themeMode = Light\<rparr>]"
    "has_window ?s" "showDisclaimer ?s" "themeMode ?s = Light" "posted ?s = []" "now ?s = 50"
    by (simp_all add: mount_eq initial_def has_window_def)
  note a = broadcasts_wait_for_settle_delay [OF m(1), of "''./init/gemini3.html''" "''<html>''"]
  have a99: "\<exists>s1 s'. step (Fetch_Settled ''./init/gemini3.html'' (Inr ''<html>'')) mount = Inr s1 \<and>
         posted s1 = [] \<and> step (Elapse 99) s1 = Inr s' \<and> posted s' = []"
    using a [of 99] m by (auto simp: broadcast_at_def)
  have a100: "\<exists>s1 s'. step (Fetch_Settled ''./init/gemini3.html'' (Inr ''<html>'')) mount = Inr s1 \<and>
         posted s1 = [] \<and> step (Elapse 100) s1 = Inr s' \<and>
         posted s' = [(100, PAUSE_GAME True), (100, SET_THEME Light)]"
    using a [of 100] m by (auto simp: broadcast_at_def)
  have b: "\<exists>s1 s'. step Click_Start ?s = Inr s1 \<and> posted s1 = [] \<and>
         timers s1 = [\<lparr>due = 100, cap_showDisclaimer = True, cap_themeMode = Light\<rparr>,
                      \<lparr>due = 150, cap_showDisclaimer = False, cap_themeMode = Light\<rparr>] \<and>
         step (Elapse 100) s1 = Inr s' \<and>
         posted s' = [(100, PAUSE_GAME True), (100, SET_THEME Light),
                      (150, PAUSE_GAME False), (150, SET_THEME Light)]"
    using broadcasts_wait_for_settle_delay [OF r, of _ _ 100] s
    by (auto simp: broadcast_at_def)
  have c: "\<exists>s1 s'. step Click_Theme ?s = Inr s1 \<and> posted s1 = [(50, SET_THEME Dark)] \<and>
         step (Elapse 99) s1 = Inr s' \<and>
         posted s' = [(50, SET_THEME Dark), (100, PAUSE_GAME True), (100, SET_THEME Light)]"
    using broadcasts_wait_for_settle_delay [OF r, of _ _ 99] s
    by (auto simp: broadcast_at_def)
  from a99 a100 r b c show ?thesis by blast
qed

text \<open>
  C3 as stated fails: right after the Start button is clicked, and still 99 ms later,
  no \<open>PAUSE_GAME(false)\<close> has been posted; it is posted 100 ms after the click.
\<close>

theorem confirm_is_not_broadcast_at_once_counterexample:
  "map_sum id posted
     (run [Fetch_Settled ''./init/gemini3.html'' (Inr ''<html>''), Elapse 100, Click_Start] mount) =
   Inr [(100, PAUSE_GAME True), (100, SET_THEME Light)] \<and>
   map_sum id posted
     (run [Fetch_Settled ''./init/gemini3.html'' (Inr ''<html>''), Elapse 100, Click_Start,
           Elapse 99] mount) =
   Inr [(100, PAUSE_GAME True), (100, SET_THEME Light)] \<and>
   map_sum id posted
     (run [Fetch_Settled ''./init/gemini3.html'' (Inr ''<html>''), Elapse 100, Click_Start,
           Elapse 100] mount) =
   Inr [(100, PAUSE_GAME True), (100, SET_THEME Light),
        (200, PAUSE_GAME False), (200, SET_THEME Light)]"
  by (simp add: mount_eq initial_def step_def elapse_eq has_window_def rerender_def Let_def
        setGameHtml_def commit_ref_def broadcast_effect_def broadcast_at_def confirm_def)

section \<open>Theme synchronisation\<close>

lemma settle_clears_timers:
  assumes "invariant s" "100 \<le> d" "step (Elapse d) s = Inr s'"
  shows "timers s' = [] \<and> has_window s' = has_window s \<and> themeMode s' = themeMode s"
proof -
  from assms(1) have "list_all (\<lambda>tm. due tm \<le> now s + 100) (timers s)"
    by (simp add: invariant_def timers_ok_def)
  with assms(2) have "list_all (\<lambda>tm. due tm \<le> now s + d) (timers s)"
    by (auto simp: list_all_iff)
  from filter_all_due [OF this] assms(3) show ?thesis
    by (auto simp: step_Elapse elapse_eq has_window_def)
qed

lemma settled_agrees:
  assumes "invariant s" "has_window s" "100 \<le> d"
  shows "\<exists>s'. step (Elapse d) s = Inr s' \<and> has_window s' \<and> timers s' = [] \<and>
           themeMode s' = themeMode s \<and> last_theme (posted s') = Some (themeMode s')"
proof -
  obtain s' where s': "step (Elapse d) s = Inr s'" using step_total by blast
  from settle_clears_timers [OF assms(1,3) s'] assms(2)
  have *: "timers s' = []" "has_window s'" "themeMode s' = themeMode s" by simp_all
  from invariant_step [OF assms(1) s'] have "synced s'" by (simp add: invariant_def)
  with * s' show ?thesis by (simp add: synced_def)
qed

lemma toggles_keep_window:
  assumes "invariant s" "has_window s" "set ts \<subseteq> insert Click_Theme (range Elapse)"
    "run ts s = Inr s'"
  shows "has_window s'"
  using assms
proof (induction ts arbitrary: s)
  case Nil
  then show ?case by simp
next
  case (Cons e ts)
  obtain s1 where s1: "step e s = Inr s1" using step_total by blast
  from Cons.prems(1) have c: "consistent s" by (simp add: invariant_def)
  from Cons.prems(3) have "e = Click_Theme \<or> (\<exists>d. e = Elapse d)" by auto
  with s1 Cons.prems(2) have w1: "has_window s1"
    by (auto simp: step_Click_Theme_eq [OF c] step_Elapse elapse_eq has_window_def)
  from Cons.prems(1) s1 have "invariant s1" by (rule invariant_step)
  moreover note w1
  moreover from Cons.prems(3) have "set ts \<subseteq> insert Click_Theme (range Elapse)" by simp
  moreover from Cons.prems(4) s1 have "run ts s1 = Inr s'" by simp
  ultimately show ?case by (rule Cons.IH)
qed

text \<open>
  C2: from any state the component reaches in which a surface with a window is mounted,
  after any sequence of theme toggles (with any waiting in between) and a final wait of at
  least 100 ms, no timeout is left armed and the last \<open>SET_THEME\<close> posted carries the
  theme the shell renders.
\<close>

theorem theme_agrees_after_settle:
  assumes "run es mount = Inr s" "has_window s"
    "set ts \<subseteq> insert Click_Theme (range Elapse)" "100 \<le> d"
  shows "\<exists>s'. run (ts @ [Elapse d]) s = Inr s' \<and> has_window s' \<and> timers s' = [] \<and>
           last_theme (posted s') = Some (themeMode s')"
proof -
  have i: "invariant s" using invariant_mount assms(1) by (rule invariant_run)
  obtain s1 where s1: "run ts s = Inr s1" using run_total by blast
  have i1: "invariant s1" using i s1 by (rule invariant_run)
  have w1: "has_window s1" using i assms(2,3) s1 by (rule toggles_keep_window)
  from settled_agrees [OF i1 w1 assms(4)] s1 show ?thesis
    by (auto simp: run_append)
qed


theorem theme_agrees_after_settle_witness:
  "run [Fetch_Settled ''./init/gemini3.html'' (Inr ''<html>'')] mount =
     Inr (mount\<lparr>pending := [], gameHtml := Some ''<html>'',
            iframeRef := Some \<lparr>srcDoc = ''<html>'', contentWindow = Some WindowProxy\<rparr>,
            timers := [\<lparr>due = 100, cap_showDisclaimer = True, cap_themeMode = Light\<rparr>]\<rparr>) \<and>
   (\<exists>s'. run ([Click_Theme, Elapse 30, Click_Theme, Click_Theme] @ [Elapse 100])
           (mount\<lparr>pending := [], gameHtml := Some ''<html>'',
              iframeRef := Some \<lparr>srcDoc = ''<html>'', contentWindow = Some WindowProxy\<rparr>,
              timers := [\<lparr>due = 100, cap_showDisclaimer = True, cap_themeMode = Light\<rparr>]\<rparr>) = Inr s' \<and>
         has_window s' \<and> timers s' = [] \<and> last_theme (posted s') = Some (themeMode s'))"
proof -
  let ?s = "mount\<lparr>pending := [], gameHtml := Some ''<html>'',
              iframeRef := Some \<lparr>srcDoc = ''<html>'', contentWindow = Some WindowProxy\<rparr>,
              timers := [\<lparr>due = 100, cap_showDisclaimer = True, cap_themeMode = Light\<rparr>]\<rparr>"
  have r: "run [Fetch_Settled ''./init/gemini3.html'' (Inr ''<html>'')] mount = Inr ?s"
    by code_simp
  have w: "has_window ?s" by code_simp
  have t: "set [Click_Theme, Elapse 30, Click_Theme, Click_Theme] \<subseteq>
             insert Click_Theme (range Elapse)"
    by simp
  have d: "(100::nat) \<le> 100" by simp
  from theme_agrees_after_settle [OF r w t d] r show ?thesis by blast
qed


text \<open>
  C7: in every state two clicks on the theme button flip the theme and flip it back. In a
  state the component reaches with a window mounted, each click posts one \<open>SET_THEME\<close>
  with the new theme at once, so the last one posted after the second click carries the
  original theme, and so does the last one posted once 100 ms or more have passed. With
  no window the two sends are dropped by the guard of line 56.
\<close>

theorem toggle_twice_restores_theme:
  "\<exists>s1 s2. step Click_Theme s = Inr s1 \<and> step Click_Theme s1 = Inr s2 \<and>
      themeMode s1 \<noteq> themeMode s \<and> themeMode s2 = themeMode s \<and>
      (run es mount = Inr s \<and> has_window s \<longrightarrow>
         posted s1 = posted s @ [(now s, SET_THEME (themeMode s1))] \<and>
         posted s2 = posted s1 @ [(now s, SET_THEME (themeMode s))] \<and>
         last_theme (posted s2) = Some (themeMode s) \<and>
         (100 \<le> d \<longrightarrow>
            (\<exists>s3. step (Elapse d) s2 = Inr s3 \<and> last_theme (posted s3) = Some (themeMode s)))) \<and>
      (run es mount = Inr s \<and> \<not> has_window s \<longrightarrow> posted s2 = posted s)"
proof -
  obtain s1 where s1: "step Click_Theme s = Inr s1" using step_total by blast
  obtain s2 where s2: "step Click_Theme s1 = Inr s2" using step_total by blast
  have t1: "themeMode s1 = (if themeMode s = Dark then Light else Dark)"
    using s1
    by (auto simp: step_def toggleTheme_eq rerender_def Let_def broadcast_effect_eq load_def
          split: if_splits)
  have t2: "themeMode s2 = (if themeMode s1 = Dark then Light else Dark)"
    using s2
    by (auto simp: step_def toggleTheme_eq rerender_def Let_def broadcast_effect_eq load_def
          split: if_splits)
  have flip: "themeMode s1 \<noteq> themeMode s" "themeMode s2 = themeMode s"
    using t1 t2 by (cases "themeMode s"; simp)+
  have live: "posted s1 = posted s @ [(now s, SET_THEME (themeMode s1))] \<and>
         posted s2 = posted s1 @ [(now s, SET_THEME (themeMode s))] \<and>
         last_theme (posted s2) = Some (themeMode s) \<and>
         (100 \<le> d \<longrightarrow>
            (\<exists>s3. step (Elapse d) s2 = Inr s3 \<and> last_theme (posted s3) = Some (themeMode s)))"
    if r: "run es mount = Inr s" and w: "has_window s"
  proof -
    have i: "invariant s" using invariant_mount r by (rule invariant_run)
    then have c: "consistent s" by (simp add: invariant_def)
    have i1: "invariant s1" using i s1 by (rule invariant_step)
    then have c1: "consistent s1" by (simp add: invariant_def)
    have i2: "invariant s2" using i1 s2 by (rule invariant_step)
    from s1 w have p1: "posted s1 = posted s @ [(now s, SET_THEME (themeMode s1))]"
      and w1: "has_window s1" and n1: "now s1 = now s"
      by (auto simp: step_Click_Theme_eq [OF c] has_window_def)
    from s2 w1 flip have p2: "posted s2 = posted s1 @ [(now s, SET_THEME (themeMode s))]"
      and w2: "has_window s2"
      by (auto simp: step_Click_Theme_eq [OF c1] has_window_def n1)
    have l2: "last_theme (posted s2) = Some (themeMode s)"
      by (simp add: p2 last_theme_append)
    have "\<exists>s3. step (Elapse d) s2 = Inr s3 \<and> last_theme (posted s3) = Some (themeMode s)"
      if "100 \<le> d"
      using settled_agrees [OF i2 w2 that] flip(2) by auto
    with p1 p2 l2 show ?thesis by blast
  qed
  have dead: "posted s2 = posted s" if r: "run es mount = Inr s" and w: "\<not> has_window s"
  proof -
    have i: "invariant s" using invariant_mount r by (rule invariant_run)
    then have c: "consistent s" by (simp add: invariant_def)
    have "invariant s1" using i s1 by (rule invariant_step)
    then have c1: "consistent s1" by (simp add: invariant_def)
    from s1 w have "posted s1 = posted s" "\<not> has_window s1"
      by (auto simp: step_Click_Theme_eq [OF c] has_window_def)
    with s2 show ?thesis
      by (auto simp: step_Click_Theme_eq [OF c1] has_window_def)
  qed
  from s1 s2 flip live dead show ?thesis by blast
qed

theorem toggle_twice_restores_theme_witness:
  "run [Fetch_Settled ''./init/gemini3.html'' (Inr ''<html>'')] mount =
     Inr (mount\<lparr>pending := [], gameHtml := Some ''<html>'',
            iframeRef := Some \<lparr>srcDoc = ''<html>'', contentWindow = Some WindowProxy\<rparr>,
            timers := [\<lparr>due = 100, cap_showDisclaimer = True, cap_themeMode = Light\<rparr>]\<rparr>) \<and>
   (\<exists>s1 s2 s3.
      step Click_Theme
        (mount\<lparr>pending := [], gameHtml := Some ''<html>'',
            iframeRef := Some \<lparr>srcDoc = ''<html>'', contentWindow = Some WindowProxy\<rparr>,
            timers := [\<lparr>due = 100, cap_showDisclaimer = True, cap_themeMode = Light\<rparr>]\<rparr>) = Inr s1 \<and>
      step Click_Theme s1 = Inr s2 \<and> step (Elapse 100) s2 = Inr s3 \<and>
      themeMode s1 = Dark \<and> themeMode s2 = Light \<and>
      posted s2 = [(0, SET_THEME Dark), (0, SET_THEME Light)] \<and>
      last_theme (posted s3) = Some Light) \<and>
   run [] mount = Inr mount \<and> \<not> has_window mount \<and>
   (\<exists>s1 s2. step Click_Theme mount = Inr s1 \<and> step Click_Theme s1 = Inr s2 \<and>
      themeMode s2 = Light \<and> posted s2 = [])"
proof -
  let ?s = "mount\<lparr>pending := [], gameHtml := Some ''<html>'',
              iframeRef := Some \<lparr>srcDoc = ''<html>'', contentWindow = Some WindowProxy\<rparr>,
              timers := [\<lparr>due = 100, cap_showDisclaimer = True, cap_themeMode = Light\<rparr>]\<rparr>"
  have r: "run [Fetch_Settled ''./init/gemini3.html'' (Inr ''<html>'')] mount = Inr ?s"
    by code_simp
  have w: "has_window ?s" by code_simp
  have f: "themeMode ?s = Light" "posted ?s = []" "now ?s = 0"
    by (simp_all add: mount_eq initial_def)
  have m: "run [] mount = Inr mount" "\<not> has_window mount" "themeMode mount = Light"
    "posted mount = []"
    by (simp_all add: mount_eq initial_def has_window_def)
  have d: "(100::nat) \<le> 100" by simp
  from toggle_twice_restores_theme
         [of ?s "[Fetch_Settled ''./init/gemini3.html'' (Inr ''<html>'')]" 100]
  obtain s1 s2 s3 where
    "step Click_Theme ?s = Inr s1" "step Click_Theme s1 = Inr s2" "step (Elapse 100) s2 = Inr s3"
    "themeMode s1 \<noteq> Light" "themeMode s2 = Light"
    "posted s2 = [(0, SET_THEME (themeMode s1)), (0, SET_THEME Light)]"
    "last_theme (posted s3) = Some Light"
    using r w f d by auto
  moreover from this(4) have "themeMode s1 = Dark" by (cases "themeMode s1") simp_all
  moreover from toggle_twice_restores_theme [of mount "[]" 100]
  obtain t1 t2 where "step Click_Theme mount = Inr t1" "step Click_Theme t1 = Inr t2"
    "themeMode t2 = Light" "posted t2 = []"
    using m by auto
  ultimately show ?thesis using r m by (auto simp del: run.simps)
qed

section \<open>The messages sent\<close>









section \<open>Resolutions and the selected variant\<close>




end
